theory Spec2Isabelle
  imports Complex_Main
begin

section \<open>The saga orchestrator of \<^verbatim>\<open>src/index.ts\<close>\<close>

subsection \<open>Data model\<close>

text \<open>
  \<^verbatim>\<open>Promise<T>\<close> as the orchestrator sees it after \<^verbatim>\<open>await\<close> inside
  \<^verbatim>\<open>try\<close>/\<^verbatim>\<open>catch\<close>: the call either yields a value or throws (a synchronous throw
  and a rejected promise reach the same \<^verbatim>\<open>catch\<close>). A promise that never settles is
  outside the model: every step returns.
\<close>

datatype ('a, 'e) Promise = Resolves 'a | Rejects 'e

text \<open>neverthrow's \<^verbatim>\<open>Result<T, E>\<close> with its constructors \<^verbatim>\<open>ok\<close> and \<^verbatim>\<open>err\<close>.\<close>

datatype ('a, 'e) Result = Ok 'a | Err 'e

text \<open>
  \<^verbatim>\<open>interface ITransaction<T>\<close>. The two actions are closures of the caller and may have
  effects of their own; these effects live in a world \<open>'w\<close> that every call receives and
  returns. The world does not contain the orchestrator: a step that calls back into the
  saga that is running it is outside the model.
\<close>

record ('s, 'e, 'w) ITransaction =
  name :: string
  execute :: "'s \<Rightarrow> 'w \<Rightarrow> ('s, 'e) Promise \<times> 'w"
  compensate :: "'s \<Rightarrow> 'w \<Rightarrow> ('s, 'e) Promise \<times> 'w"

text \<open>\<^verbatim>\<open>class Saga<T>\<close> with its one private field \<^verbatim>\<open>_transactions\<close>.\<close>

record ('s, 'e, 'w) Saga =
  transactions :: "('s, 'e, 'w) ITransaction list"

text \<open>
  Saga objects are mutable and handed around by reference (\<^verbatim>\<open>addTransaction\<close> returns
  \<^verbatim>\<open>this\<close>), so they live in a store; a reference is the object's position in it.
\<close>

type_synonym ref = nat

type_synonym ('s, 'e, 'w) store = "('s, 'e, 'w) Saga list"

text \<open>
  What a run lets one observe: every call of a step's action, with the index of the step,
  the argument it received and how the call ended.
\<close>

datatype call = Forward nat | Compensate nat

datatype ('s, 'e) event = Event (call: call) (arg: 's) (outcome: "('s, 'e) Promise")

record ('s, 'e, 'w) run =
  result :: "((unit, 'e) Result, 'e) Promise"
  final_args :: 's
  world :: 'w
  calls :: "('s, 'e) event list"
  heap :: "('s, 'e, 'w) store"

subsection \<open>Construction\<close>

text \<open>\<^verbatim>\<open>static new<T>()\<close>: a fresh object with an empty step list.\<close>

definition Saga_new :: "('s, 'e, 'w) store \<Rightarrow> ref \<times> ('s, 'e, 'w) store" where
  "Saga_new h = (length h, h @ [\<lparr>transactions = []\<rparr>])"

text \<open>\<^verbatim>\<open>addTransaction\<close>: \<^verbatim>\<open>this._transactions.push(transaction); return this\<close>.\<close>

definition addTransaction ::
  "ref \<Rightarrow> ('s, 'e, 'w) ITransaction \<Rightarrow> ('s, 'e, 'w) store \<Rightarrow> ref \<times> ('s, 'e, 'w) store" where
  "addTransaction this transaction h =
     (this, h[this := (h ! this)\<lparr>transactions := transactions (h ! this) @ [transaction]\<rparr>])"

text \<open>Fluent chaining: each call is made on the reference the previous call returned.\<close>

fun chain ::
  "ref \<Rightarrow> ('s, 'e, 'w) ITransaction list \<Rightarrow> ('s, 'e, 'w) store \<Rightarrow> ref \<times> ('s, 'e, 'w) store" where
  "chain this [] h = (this, h)"
| "chain this (t # ts) h = (case addTransaction this t h of (this', h') \<Rightarrow> chain this' ts h')"

subsection \<open>Execution\<close>

text \<open>
  The loop of \<^verbatim>\<open>_startCompensate\<close>:
  \<^verbatim>\<open>for (let i = idx - 1; i >= 0; i--) { try { args = await this._transactions[i].compensate(args) } catch (e) {} }\<close>.
  The counter is a signed number (it starts at \<open>-1\<close> when \<open>idx = 0\<close>). Everything in the
  body is inside \<^verbatim>\<open>try\<close>: a rejected call leaves \<^verbatim>\<open>args\<close> as it was, and so does the
  TypeError of reading \<^verbatim>\<open>.compensate\<close> off a missing element.
\<close>

function compensate_loop ::
  "('s, 'e, 'w) store \<Rightarrow> ref \<Rightarrow> int \<Rightarrow> 's \<Rightarrow> 'w \<Rightarrow> ('s, 'e) event list
     \<Rightarrow> 's \<times> 'w \<times> ('s, 'e) event list" where
  "compensate_loop h this i args w tr =
     (if i \<ge> 0 then
        (if nat i < length (transactions (h ! this)) then
           (case compensate (transactions (h ! this) ! nat i) args w of
              (Resolves args', w') \<Rightarrow>
                compensate_loop h this (i - 1) args' w'
                  (tr @ [Event (Compensate (nat i)) args (Resolves args')])
            | (Rejects e, w') \<Rightarrow>
                compensate_loop h this (i - 1) args w'
                  (tr @ [Event (Compensate (nat i)) args (Rejects e)]))
         else compensate_loop h this (i - 1) args w tr)
      else (args, w, tr))"
  by pat_completeness auto
termination
  by (relation "measure (\<lambda>(h, this, i, args, w, tr). nat (i + 1))") auto

text \<open>\<^verbatim>\<open>_startCompensate(idx, args, error)\<close>: the loop, then \<^verbatim>\<open>return err(error)\<close>.\<close>

definition startCompensate ::
  "('s, 'e, 'w) store \<Rightarrow> ref \<Rightarrow> nat \<Rightarrow> 's \<Rightarrow> 'e \<Rightarrow> 'w \<Rightarrow> ('s, 'e) event list
     \<Rightarrow> ('s, 'e, 'w) run" where
  "startCompensate h this idx args error w tr =
     (case compensate_loop h this (int idx - 1) args w tr of
        (args', w', tr') \<Rightarrow>
          \<lparr>result = Resolves (Err error), final_args = args', world = w', calls = tr',
           heap = h\<rparr>)"

text \<open>
  The loop of \<^verbatim>\<open>execute\<close>:
  \<^verbatim>\<open>for (let i = 0; i < this._transactions.length; i++) { const { execute } = this._transactions[i]; try { args = await execute(args) } catch (e) { return this._startCompensate(i, args, e) } }\<close>
  followed by \<^verbatim>\<open>return ok(undefined)\<close>. The element read is guarded by the loop test.
\<close>

function execute_loop ::
  "('s, 'e, 'w) store \<Rightarrow> ref \<Rightarrow> nat \<Rightarrow> 's \<Rightarrow> 'w \<Rightarrow> ('s, 'e) event list
     \<Rightarrow> ('s, 'e, 'w) run" where
  "execute_loop h this i args w tr =
     (if i < length (transactions (h ! this)) then
        (case execute (transactions (h ! this) ! i) args w of
           (Resolves args', w') \<Rightarrow>
             execute_loop h this (i + 1) args' w' (tr @ [Event (Forward i) args (Resolves args')])
         | (Rejects e, w') \<Rightarrow>
             startCompensate h this i args e w' (tr @ [Event (Forward i) args (Rejects e)]))
      else
        \<lparr>result = Resolves (Ok ()), final_args = args, world = w, calls = tr, heap = h\<rparr>)"
  by pat_completeness auto
termination
  by (relation "measure (\<lambda>(h, this, i, args, w, tr). length (transactions (h ! this)) - i)") auto

text \<open>\<^verbatim>\<open>execute(args)\<close> on the saga at \<open>this\<close>, from world \<open>w\<close>, with an empty log.\<close>

definition Saga_execute ::
  "('s, 'e, 'w) store \<Rightarrow> ref \<Rightarrow> 's \<Rightarrow> 'w \<Rightarrow> ('s, 'e, 'w) run" where
  "Saga_execute h this args w = execute_loop h this 0 args w []"

subsection \<open>Vocabulary of the properties\<close>

text \<open>
  The steps of a list all succeed when run one after the other from state \<open>s\<close> and world
  \<open>w\<close>; the value is the state and world reached. "The forward action at index \<open>k\<close> is
  the first to fail" then reads: \<open>forward_pass (take k ts) init w0 = Some (sk, wk)\<close> and
  \<open>execute (ts ! k) sk wk = (Rejects e, wr)\<close>.
\<close>

fun forward_pass ::
  "('s, 'e, 'w) ITransaction list \<Rightarrow> 's \<Rightarrow> 'w \<Rightarrow> ('s \<times> 'w) option" where
  "forward_pass [] s w = Some (s, w)"
| "forward_pass (t # ts) s w =
     (case execute t s w of
        (Resolves s', w') \<Rightarrow> forward_pass ts s' w'
      | (Rejects e, w') \<Rightarrow> None)"

text \<open>
  One forward action as a function on state and world, for the left fold of the
  all-succeed law. The second case keeps the state; the law never reaches it.
\<close>

fun apply_forward :: "'s \<times> 'w \<Rightarrow> ('s, 'e, 'w) ITransaction \<Rightarrow> 's \<times> 'w" where
  "apply_forward (s, w) t =
     (case execute t s w of (Resolves s', w') \<Rightarrow> (s', w') | (Rejects e, w') \<Rightarrow> (s, w'))"

text \<open>The value of \<^verbatim>\<open>args\<close> after \<^verbatim>\<open>try { args = await f(args) } catch (e) {}\<close>.\<close>

fun next_args :: "'s \<Rightarrow> ('s, 'e) Promise \<Rightarrow> 's" where
  "next_args a (Resolves a') = a'"
| "next_args a (Rejects e) = a"

text \<open>
  A log is threaded from \<open>s\<close> to \<open>s'\<close> when its first call receives \<open>s\<close>, every later
  call receives what the call before it left in \<^verbatim>\<open>args\<close>, and the last call leaves \<open>s'\<close>.
\<close>

fun threaded :: "'s \<Rightarrow> ('s, 'e) event list \<Rightarrow> 's \<Rightarrow> bool" where
  "threaded s [] s' = (s = s')"
| "threaded s (ev # evs) s' = (arg ev = s \<and> threaded (next_args s (outcome ev)) evs s')"

text \<open>
  One compensation as a function on state and world, in the words of the specification:
  on success the state becomes the compensation's result; on failure the error is
  swallowed and the state stays the last one successfully produced. Either way the call
  has happened, and the world is the one it leaves. The compensation pass over the steps
  \<open>0, \<dots>, k - 1\<close> is the left fold of this function over the reversed list of these steps.
\<close>

fun apply_compensate :: "'s \<times> 'w \<Rightarrow> ('s, 'e, 'w) ITransaction \<Rightarrow> 's \<times> 'w" where
  "apply_compensate (s, w) t =
     (case compensate t s w of (Resolves s', w') \<Rightarrow> (s', w') | (Rejects e, w') \<Rightarrow> (s, w'))"

text \<open>
  The calls that a list of steps, each paired with its registration index, gives rise to
  when the steps run forward in list order from \<open>s\<close> and \<open>w\<close>: each call receives the state
  the previous one produced, and the first rejection ends the list.
\<close>

fun forward_events ::
  "(nat \<times> ('s, 'e, 'w) ITransaction) list \<Rightarrow> 's \<Rightarrow> 'w \<Rightarrow> ('s, 'e) event list" where
  "forward_events [] s w = []"
| "forward_events ((i, t) # r) s w =
     (case execute t s w of
        (Resolves s', w') \<Rightarrow> Event (Forward i) s (Resolves s') # forward_events r s' w'
      | (Rejects e, w') \<Rightarrow> [Event (Forward i) s (Rejects e)])"

text \<open>
  The calls that such a list gives rise to when its steps are compensated in list order
  from \<open>s\<close> and \<open>w\<close>: every step of the list is called, a rejected call passes on the
  state it received.
\<close>

fun compensate_events ::
  "(nat \<times> ('s, 'e, 'w) ITransaction) list \<Rightarrow> 's \<Rightarrow> 'w \<Rightarrow> ('s, 'e) event list" where
  "compensate_events [] s w = []"
| "compensate_events ((j, t) # r) s w =
     (case compensate t s w of
        (Resolves s', w') \<Rightarrow> Event (Compensate j) s (Resolves s') # compensate_events r s' w'
      | (Rejects e, w') \<Rightarrow> Event (Compensate j) s (Rejects e) # compensate_events r s w')"

subsection \<open>Concrete sagas\<close>

text \<open>
  The steps of the specification's scenario. Its numbers are small integers, on which the
  arithmetic of JavaScript numbers is exact; they are rationals here, so that \<open>x / 2\<close> is
  the exact quotient. The scenario says nothing about the compensation of \<open>C\<close>, which is a
  parameter.
\<close>

definition stepA :: "(rat, 'e, 'w) ITransaction" where
  "stepA = \<lparr>name = ''A'', execute = (\<lambda>x w. (Resolves (x + 1), w)),
             compensate = (\<lambda>x w. (Resolves (x - 1), w))\<rparr>"

definition stepB :: "(rat, 'e, 'w) ITransaction" where
  "stepB = \<lparr>name = ''B'', execute = (\<lambda>x w. (Resolves (x * 2), w)),
             compensate = (\<lambda>x w. (Resolves (x / 2), w))\<rparr>"

definition stepC ::
  "'e \<Rightarrow> (rat \<Rightarrow> 'w \<Rightarrow> (rat, 'e) Promise \<times> 'w) \<Rightarrow> (rat, 'e, 'w) ITransaction" where
  "stepC E cmp = \<lparr>name = ''C'', execute = (\<lambda>x w. (Rejects E, w)), compensate = cmp\<rparr>"

text \<open>The scenario's saga, built the way a caller builds it.\<close>

definition scenario ::
  "'e \<Rightarrow> (rat \<Rightarrow> 'w \<Rightarrow> (rat, 'e) Promise \<times> 'w) \<Rightarrow> ref \<times> (rat, 'e, 'w) store" where
  "scenario E cmp =
     (case Saga_new [] of (saga, h) \<Rightarrow> chain saga [stepA, stepB, stepC E cmp] h)"

text \<open>
  A step whose compensation always fails and whose actions count their calls in the
  world, and a saga of four steps that fails at its last step and meets the failing
  compensation on the way back.
\<close>

definition stepF :: "'e \<Rightarrow> (rat, 'e, nat) ITransaction" where
  "stepF E' = \<lparr>name = ''F'', execute = (\<lambda>x w. (Resolves (x + 10), Suc w)),
               compensate = (\<lambda>x w. (Rejects E', Suc w))\<rparr>"

definition demo :: "(rat, string, nat) store" where
  "demo = [\<lparr>transactions =
             [stepA, stepF ''undo failed'', stepB,
              stepC ''boom'' (\<lambda>x w. (Resolves x, w))]\<rparr>]"

definition demo_ok :: "(rat, string, nat) store" where
  "demo_ok = [\<lparr>transactions = [stepA, stepF ''undo failed'', stepB]\<rparr>]"

text \<open>A saga whose first step fails.\<close>

definition demo_first :: "(rat, string, nat) store" where
  "demo_first = [\<lparr>transactions = [stepC ''boom'' (\<lambda>x w. (Resolves x, w)), stepA]\<rparr>]"

text \<open>
  A step both of whose actions succeed and count their calls in the world, and a saga in
  which the compensation of step 1 fails between two compensations that succeed.
\<close>

definition stepG :: "(rat, 'e, nat) ITransaction" where
  "stepG = \<lparr>name = ''G'', execute = (\<lambda>x w. (Resolves (x + 1), Suc w)),
             compensate = (\<lambda>x w. (Resolves (x - 1), Suc w))\<rparr>"

definition demo_unwind :: "(rat, string, nat) store" where
  "demo_unwind = [\<lparr>transactions =
             [stepG, stepF ''undo failed'', stepG,
              stepC ''boom'' (\<lambda>x w. (Resolves x, w))]\<rparr>]"

section \<open>Properties\<close>

declare compensate_loop.simps [simp del] execute_loop.simps [simp del]

lemmas demo_simps = demo_def demo_ok_def stepA_def stepB_def stepC_def stepF_def
  Saga_execute_def execute_loop.simps compensate_loop.simps startCompensate_def

subsection \<open>One iteration of each loop\<close>

lemma compensate_loop_neg: "i < 0 \<Longrightarrow> compensate_loop h this i a w tr = (a, w, tr)"
  by (subst compensate_loop.simps) simp

lemma compensate_loop_call:
  assumes "0 \<le> i" "nat i < length (transactions (h ! this))"
    and "compensate (transactions (h ! this) ! nat i) a w = (p, w')"
  shows "compensate_loop h this i a w tr =
         compensate_loop h this (i - 1) (next_args a p) w' (tr @ [Event (Compensate (nat i)) a p])"
  using assms by (subst compensate_loop.simps) (cases p; simp)

lemma compensate_loop_Suc:
  assumes "n < length (transactions (h ! this))"
    and "compensate (transactions (h ! this) ! n) a w = (p, w')"
  shows "compensate_loop h this (int (Suc n) - 1) a w tr =
         compensate_loop h this (int n - 1) (next_args a p) w' (tr @ [Event (Compensate n) a p])"
  using compensate_loop_call [of "int n" h this a w p w' tr] assms by simp

lemma execute_loop_done:
  "\<not> i < length (transactions (h ! this)) \<Longrightarrow> execute_loop h this i a w tr =
     \<lparr>result = Resolves (Ok ()), final_args = a, world = w, calls = tr, heap = h\<rparr>"
  by (subst execute_loop.simps) simp

lemma execute_loop_ok:
  "i < length (transactions (h ! this)) \<Longrightarrow>
   execute (transactions (h ! this) ! i) a w = (Resolves a', w') \<Longrightarrow>
   execute_loop h this i a w tr =
     execute_loop h this (Suc i) a' w' (tr @ [Event (Forward i) a (Resolves a')])"
  by (subst execute_loop.simps) simp

lemma execute_loop_fail:
  "i < length (transactions (h ! this)) \<Longrightarrow>
   execute (transactions (h ! this) ! i) a w = (Rejects e, w') \<Longrightarrow>
   execute_loop h this i a w tr =
     startCompensate h this i a e w' (tr @ [Event (Forward i) a (Rejects e)])"
  by (subst execute_loop.simps) simp

subsection \<open>What each loop appends to the log\<close>

text \<open>
  Started below index \<open>n\<close>, the compensation loop appends one call for each of
  \<open>n - 1, \<dots>, 0\<close>, in that order, threaded from the state it was given.
\<close>

lemma compensate_loop_shape:
  assumes "n \<le> length (transactions (h ! this))"
  shows "\<exists>a' w' X. compensate_loop h this (int n - 1) a w tr = (a', w', tr @ X) \<and>
           map call X = map Compensate (rev [0..<n]) \<and> threaded a X a'"
  using assms
proof (induction n arbitrary: a w tr)
  case 0
  show ?case by (simp add: compensate_loop_neg)
next
  case (Suc n)
  obtain p w1 where c: "compensate (transactions (h ! this) ! n) a w = (p, w1)"
    by (cases "compensate (transactions (h ! this) ! n) a w")
  let ?ev = "Event (Compensate n) a p"
  from Suc.prems have n: "n < length (transactions (h ! this))" by simp
  from Suc.IH [of "next_args a p" w1 "tr @ [?ev]"] n
  obtain a' w' X where
    X: "compensate_loop h this (int n - 1) (next_args a p) w1 (tr @ [?ev]) =
          (a', w', (tr @ [?ev]) @ X)"
      "map call X = map Compensate (rev [0..<n])" "threaded (next_args a p) X a'"
    by auto
  have "compensate_loop h this (int (Suc n) - 1) a w tr = (a', w', tr @ (?ev # X))"
    using compensate_loop_Suc [OF n c] X(1) by simp
  moreover have "map call (?ev # X) = map Compensate (rev [0..<Suc n])"
    using X(2) by simp
  moreover have "threaded a (?ev # X) a'"
    using X(3) by simp
  ultimately show ?case by blast
qed

text \<open>
  While the steps succeed, the forward loop appends one call for each index it passes and
  arrives at the state and world that \<open>forward_pass\<close> computes.
\<close>

lemma execute_loop_prefix:
  assumes "i + n \<le> length (transactions (h ! this))"
    and "forward_pass (take n (drop i (transactions (h ! this)))) a w = Some (sk, wk)"
  shows "\<exists>X. execute_loop h this i a w tr = execute_loop h this (i + n) sk wk (tr @ X) \<and>
           map call X = map Forward [i..<i + n] \<and> threaded a X sk"
  using assms
proof (induction n arbitrary: i a w tr)
  case 0
  then have "execute_loop h this i a w tr = execute_loop h this (i + 0) sk wk (tr @ []) \<and>
      map call [] = map Forward [i..<i + 0] \<and> threaded a [] sk"
    by simp
  then show ?case by blast
next
  case (Suc n)
  let ?ts = "transactions (h ! this)"
  from Suc.prems(1) have i: "i < length ?ts" by simp
  then have d: "take (Suc n) (drop i ?ts) = ?ts ! i # take n (drop (Suc i) ?ts)"
    by (simp add: Cons_nth_drop_Suc [symmetric])
  obtain p w1 where c: "execute (?ts ! i) a w = (p, w1)"
    by (cases "execute (?ts ! i) a w")
  with Suc.prems(2) d obtain a1 where p: "p = Resolves a1"
    and f: "forward_pass (take n (drop (Suc i) ?ts)) a1 w1 = Some (sk, wk)"
    by (cases p) auto
  let ?ev = "Event (Forward i) a (Resolves a1)"
  from Suc.IH [of "Suc i" a1 w1 "tr @ [?ev]"] Suc.prems(1) f
  obtain X where X: "execute_loop h this (Suc i) a1 w1 (tr @ [?ev]) =
        execute_loop h this (Suc i + n) sk wk ((tr @ [?ev]) @ X)"
      "map call X = map Forward [Suc i..<Suc i + n]" "threaded a1 X sk"
    by auto
  have "execute_loop h this i a w tr = execute_loop h this (i + Suc n) sk wk (tr @ (?ev # X))"
    using execute_loop_ok [OF i c [unfolded p]] X(1) by simp
  moreover have "map call (?ev # X) = map Forward [i..<i + Suc n]"
    using X(2) by (simp add: upt_conv_Cons)
  moreover have "threaded a (?ev # X) sk" using X(3) by simp
  ultimately show ?case by blast
qed

subsection \<open>Either every step succeeds or one is the first to fail\<close>

lemma forward_pass_None:
  "forward_pass ts s w = None \<Longrightarrow>
   \<exists>k sk wk e wr. k < length ts \<and> forward_pass (take k ts) s w = Some (sk, wk) \<and>
     execute (ts ! k) sk wk = (Rejects e, wr)"
proof (induction ts arbitrary: s w)
  case Nil
  then show ?case by simp
next
  case (Cons t ts)
  obtain p w1 where c: "execute t s w = (p, w1)" by (cases "execute t s w")
  show ?case
  proof (cases p)
    case (Rejects e)
    with c have "0 < length (t # ts) \<and> forward_pass (take 0 (t # ts)) s w = Some (s, w) \<and>
        execute ((t # ts) ! 0) s w = (Rejects e, w1)" by simp
    then show ?thesis by blast
  next
    case (Resolves s1)
    with c Cons.prems have "forward_pass ts s1 w1 = None" by simp
    from Cons.IH [OF this] obtain k sk wk e wr where
      "k < length ts" "forward_pass (take k ts) s1 w1 = Some (sk, wk)"
      "execute (ts ! k) sk wk = (Rejects e, wr)" by blast
    with c Resolves have "Suc k < length (t # ts) \<and>
        forward_pass (take (Suc k) (t # ts)) s w = Some (sk, wk) \<and>
        execute ((t # ts) ! Suc k) sk wk = (Rejects e, wr)" by simp
    then show ?thesis by blast
  qed
qed

lemma forward_pass_foldl:
  "forward_pass ts s w = Some r \<Longrightarrow> foldl apply_forward (s, w) ts = r"
proof (induction ts arbitrary: s w)
  case Nil
  then show ?case by simp
next
  case (Cons t ts)
  obtain p w1 where c: "execute t s w = (p, w1)" by (cases "execute t s w")
  with Cons show ?case by (cases p) auto
qed

subsection \<open>The shape of a whole run\<close>

lemma run_success:
  assumes "forward_pass (transactions (h ! this)) init w0 = Some (s', w')"
  shows "\<exists>F. Saga_execute h this init w0 =
           \<lparr>result = Resolves (Ok ()), final_args = s', world = w', calls = F, heap = h\<rparr> \<and>
         map call F = map Forward [0..<length (transactions (h ! this))] \<and>
         threaded init F s'"
  using execute_loop_prefix [of 0 "length (transactions (h ! this))" h this init w0 s' w' "[]"]
    assms
  by (auto simp: Saga_execute_def execute_loop_done)

lemma run_failure:
  assumes "k < length (transactions (h ! this))"
    and "forward_pass (take k (transactions (h ! this))) init w0 = Some (sk, wk)"
    and "execute (transactions (h ! this) ! k) sk wk = (Rejects e, wr)"
  shows "\<exists>F C a' w'. Saga_execute h this init w0 =
           \<lparr>result = Resolves (Err e), final_args = a', world = w',
            calls = F @ Event (Forward k) sk (Rejects e) # C, heap = h\<rparr> \<and>
         map call F = map Forward [0..<k] \<and> threaded init F sk \<and>
         map call C = map Compensate (rev [0..<k]) \<and> threaded sk C a'"
proof -
  let ?ev = "Event (Forward k) sk (Rejects e)"
  from execute_loop_prefix [of 0 k h this init w0 sk wk "[]"] assms
  obtain F where F: "execute_loop h this 0 init w0 [] = execute_loop h this k sk wk F"
    "map call F = map Forward [0..<k]" "threaded init F sk"
    by auto
  from compensate_loop_shape [of k h this sk wr "F @ [?ev]"] assms(1)
  obtain a' w' C where
    C: "compensate_loop h this (int k - 1) sk wr (F @ [?ev]) = (a', w', (F @ [?ev]) @ C)"
    "map call C = map Compensate (rev [0..<k])" "threaded sk C a'"
    by auto
  have "Saga_execute h this init w0 =
           \<lparr>result = Resolves (Err e), final_args = a', world = w',
            calls = F @ ?ev # C, heap = h\<rparr>"
    using F(1) execute_loop_fail [OF assms(1,3)] C(1)
    by (simp add: Saga_execute_def startCompensate_def)
  with F C show ?thesis by blast
qed

subsection \<open>The run of the code against the passes of the specification\<close>

lemma compensate_loop_spec:
  assumes "n \<le> length (transactions (h ! this))"
  shows "compensate_loop h this (int n - 1) a w tr =
     (fst (foldl apply_compensate (a, w) (rev (take n (transactions (h ! this))))),
      snd (foldl apply_compensate (a, w) (rev (take n (transactions (h ! this))))),
      tr @ compensate_events (rev (enumerate 0 (take n (transactions (h ! this))))) a w)"
  using assms
proof (induction n arbitrary: a w tr)
  case 0
  show ?case by (simp add: compensate_loop_neg)
next
  case (Suc n)
  let ?ts = "transactions (h ! this)"
  from Suc.prems have n: "n < length ?ts" by simp
  obtain p w1 where c: "compensate (?ts ! n) a w = (p, w1)"
    by (cases "compensate (?ts ! n) a w")
  have t: "take (Suc n) ?ts = take n ?ts @ [?ts ! n]"
    using n by (simp add: take_Suc_conv_app_nth)
  have rt: "rev (take (Suc n) ?ts) = ?ts ! n # rev (take n ?ts)"
    by (simp add: t)
  have en: "rev (enumerate 0 (take (Suc n) ?ts)) = (n, ?ts ! n) # rev (enumerate 0 (take n ?ts))"
    using n by (simp add: t enumerate_append_eq)
  have f: "apply_compensate (a, w) (?ts ! n) = (next_args a p, w1)"
    using c by (cases p) simp_all
  have ev: "compensate_events ((n, ?ts ! n) # r) a w =
      Event (Compensate n) a p # compensate_events r (next_args a p) w1" for r
    using c by (cases p) simp_all
  from Suc.IH [of "next_args a p" w1 "tr @ [Event (Compensate n) a p]"] n
  have "compensate_loop h this (int n - 1) (next_args a p) w1 (tr @ [Event (Compensate n) a p]) =
     (fst (foldl apply_compensate (next_args a p, w1) (rev (take n ?ts))),
      snd (foldl apply_compensate (next_args a p, w1) (rev (take n ?ts))),
      (tr @ [Event (Compensate n) a p]) @
        compensate_events (rev (enumerate 0 (take n ?ts))) (next_args a p) w1)"
    by simp
  then show ?case
    using compensate_loop_Suc [OF n c] by (simp add: rt en f ev del: apply_compensate.simps compensate_events.simps)
qed

lemma execute_loop_prefix_events:
  assumes "i + n \<le> length (transactions (h ! this))"
    and "forward_pass (take n (drop i (transactions (h ! this)))) a w = Some (sk, wk)"
  shows "execute_loop h this i a w tr =
     execute_loop h this (i + n) sk wk
       (tr @ forward_events (enumerate i (take n (drop i (transactions (h ! this))))) a w)"
  using assms
proof (induction n arbitrary: i a w tr)
  case 0
  then show ?case by simp
next
  case (Suc n)
  let ?ts = "transactions (h ! this)"
  from Suc.prems(1) have i: "i < length ?ts" by simp
  then have d: "take (Suc n) (drop i ?ts) = ?ts ! i # take n (drop (Suc i) ?ts)"
    by (simp add: Cons_nth_drop_Suc [symmetric])
  obtain p w1 where c: "execute (?ts ! i) a w = (p, w1)"
    by (cases "execute (?ts ! i) a w")
  with Suc.prems(2) d obtain a1 where p: "p = Resolves a1"
    and f: "forward_pass (take n (drop (Suc i) ?ts)) a1 w1 = Some (sk, wk)"
    by (cases p) auto
  let ?ev = "Event (Forward i) a (Resolves a1)"
  from Suc.IH [of "Suc i" a1 w1 "tr @ [?ev]"] Suc.prems(1) f
  have "execute_loop h this (Suc i) a1 w1 (tr @ [?ev]) =
        execute_loop h this (Suc i + n) sk wk
          ((tr @ [?ev]) @ forward_events (enumerate (Suc i) (take n (drop (Suc i) ?ts))) a1 w1)"
    by simp
  then show ?case
    using execute_loop_ok [OF i c [unfolded p]] c p by (simp add: d)
qed

lemma run_failure_spec:
  assumes "k < length (transactions (h ! this))"
    and "forward_pass (take k (transactions (h ! this))) init w0 = Some (sk, wk)"
    and "execute (transactions (h ! this) ! k) sk wk = (Rejects e, wr)"
  shows "Saga_execute h this init w0 =
     \<lparr>result = Resolves (Err e),
      final_args = fst (foldl apply_compensate (sk, wr) (rev (take k (transactions (h ! this))))),
      world = snd (foldl apply_compensate (sk, wr) (rev (take k (transactions (h ! this))))),
      calls = forward_events (enumerate 0 (take k (transactions (h ! this)))) init w0 @
              Event (Forward k) sk (Rejects e) #
              compensate_events (rev (enumerate 0 (take k (transactions (h ! this))))) sk wr,
      heap = h\<rparr>"
proof -
  let ?ts = "transactions (h ! this)"
  let ?F = "forward_events (enumerate 0 (take k ?ts)) init w0"
  have "execute_loop h this 0 init w0 [] = execute_loop h this k sk wk ?F"
    using execute_loop_prefix_events [of 0 k h this init w0 sk wk "[]"] assms by simp
  also have "\<dots> = startCompensate h this k sk e wr (?F @ [Event (Forward k) sk (Rejects e)])"
    by (rule execute_loop_fail [OF assms(1,3)])
  finally show ?thesis
    using compensate_loop_spec [of k h this sk wr "?F @ [Event (Forward k) sk (Rejects e)]"] assms(1)
    by (simp add: Saga_execute_def startCompensate_def)
qed

lemma compensate_events_append:
  "compensate_events (xs @ ys) s w =
     compensate_events xs s w @
     compensate_events ys (fst (foldl apply_compensate (s, w) (map snd xs)))
       (snd (foldl apply_compensate (s, w) (map snd xs)))"
proof (induction xs arbitrary: s w)
  case Nil
  show ?case by simp
next
  case (Cons x xs)
  obtain j t where x: "x = (j, t)" by (cases x)
  obtain p w1 where c: "compensate t s w = (p, w1)" by (cases "compensate t s w")
  show ?case using Cons.IH c by (cases p) (simp_all add: x)
qed

lemma compensate_events_calls:
  "map call (compensate_events xs s w) = map (\<lambda>x. Compensate (fst x)) xs"
proof (induction xs arbitrary: s w)
  case Nil
  show ?case by simp
next
  case (Cons x xs)
  obtain j t where x: "x = (j, t)" by (cases x)
  obtain p w1 where c: "compensate t s w = (p, w1)" by (cases "compensate t s w")
  show ?case using Cons.IH c by (cases p) (simp_all add: x)
qed

lemma compensate_events_hd:
  "xs \<noteq> [] \<Longrightarrow> arg (hd (compensate_events xs s w)) = s"
proof (cases xs)
  case Nil
  assume "xs \<noteq> []"
  with Nil show ?thesis by simp
next
  case (Cons x r)
  obtain j t where x: "x = (j, t)" by (cases x)
  obtain p w1 where c: "compensate t s w = (p, w1)" by (cases "compensate t s w")
  show ?thesis using c by (cases p) (simp_all add: Cons x)
qed

lemma take_split:
  assumes "j < k" "k \<le> length ts"
  shows "take k ts = take j ts @ ts ! j # drop (Suc j) (take k ts)"
proof -
  from assms have "j < length (take k ts)" by simp
  from id_take_nth_drop [OF this] assms show ?thesis by (simp add: min_def)
qed

subsection \<open>Building a saga\<close>

lemma chain_eq:
  "this < length h \<Longrightarrow>
   chain this new h =
     (this, h[this := (h ! this)\<lparr>transactions := transactions (h ! this) @ new\<rparr>])"
proof (induction new arbitrary: h)
  case Nil
  then show ?case by simp
next
  case (Cons t new)
  then show ?case by (simp add: addTransaction_def)
qed

subsection \<open>Facts about the concrete sagas\<close>

lemma demo_length: "3 < length (transactions (demo ! 0))"
  by (simp add: demo_def)

lemma demo_pass: "forward_pass (take 3 (transactions (demo ! 0))) 3 0 = Some (28, 1)"
  by (simp add: demo_def stepA_def stepB_def stepF_def)

lemma demo_fail: "execute (transactions (demo ! 0) ! 3) 28 1 = (Rejects ''boom'', 1)"
  by (simp add: demo_def stepC_def)

lemma demo_run:
  "Saga_execute demo 0 3 0 =
     \<lparr>result = Resolves (Err ''boom''), final_args = 13, world = 2,
      calls = [Event (Forward 0) 3 (Resolves 4), Event (Forward 1) 4 (Resolves 14),
               Event (Forward 2) 14 (Resolves 28), Event (Forward 3) 28 (Rejects ''boom''),
               Event (Compensate 2) 28 (Resolves 14),
               Event (Compensate 1) 14 (Rejects ''undo failed''),
               Event (Compensate 0) 14 (Resolves 13)],
      heap = demo\<rparr>"
  by (simp add: demo_simps)

lemma unwind_length: "3 < length (transactions (demo_unwind ! 0))"
  by (simp add: demo_unwind_def)

lemma unwind_pass: "forward_pass (take 3 (transactions (demo_unwind ! 0))) 3 0 = Some (15, 3)"
  by (simp add: demo_unwind_def stepG_def stepF_def)

lemma unwind_fail: "execute (transactions (demo_unwind ! 0) ! 3) 15 3 = (Rejects ''boom'', 3)"
  by (simp add: demo_unwind_def stepC_def)

lemma unwind_forward_events:
  "forward_events (enumerate 0 (take 3 (transactions (demo_unwind ! 0)))) 3 0 =
     [Event (Forward 0) 3 (Resolves 4), Event (Forward 1) 4 (Resolves 14),
      Event (Forward 2) 14 (Resolves 15)]"
  by (simp add: demo_unwind_def stepG_def stepF_def)

section \<open>The claims\<close>

text \<open>
  Claim C1. If the forward action at index \<open>k\<close> is the first to fail, with error \<open>e\<close>,
  then \<open>execute\<close> returns \<open>err(e)\<close>. Nothing is assumed about the compensations: whether
  they succeed or fail, the error returned is the one of the forward action.
\<close>

theorem original_error_preserved:
  assumes "k < length (transactions (h ! this))"
    and "forward_pass (take k (transactions (h ! this))) init w0 = Some (sk, wk)"
    and "execute (transactions (h ! this) ! k) sk wk = (Rejects e, wr)"
  shows "result (Saga_execute h this init w0) = Resolves (Err e)"
  using run_failure [OF assms] by auto

text \<open>
  In \<open>demo\<close> the step at index 3 fails with \<open>''boom''\<close> and the compensation of step 1
  fails with \<open>''undo failed''\<close>; the run returns \<open>''boom''\<close>.
\<close>

theorem original_error_preserved_witness:
  "3 < length (transactions (demo ! 0)) \<and>
   forward_pass (take 3 (transactions (demo ! 0))) 3 0 = Some (28, 1) \<and>
   execute (transactions (demo ! 0) ! 3) 28 1 = (Rejects ''boom'', 1) \<and>
   Event (Compensate 1) 14 (Rejects ''undo failed'') \<in> set (calls (Saga_execute demo 0 3 0)) \<and>
   result (Saga_execute demo 0 3 0) = Resolves (Err ''boom'')"
proof -
  have "Event (Compensate 1) 14 (Rejects ''undo failed'') \<in> set (calls (Saga_execute demo 0 3 0))"
    by (simp add: demo_run)
  with demo_length demo_pass demo_fail
    original_error_preserved [OF demo_length demo_pass demo_fail]
  show ?thesis by blast
qed

text \<open>
  Claim C2. If the forward action at index \<open>k\<close> is the first to fail, the run is this one
  and no other: the forward actions of the steps \<open>0, \<dots>, k - 1\<close> are called in registration
  order, then the forward action of step \<open>k\<close>, which fails; then the compensations of the
  steps \<open>k - 1, \<dots>, 0\<close> are called in that order, from the state the failed call received
  and the world it left. The final state and world are those of that compensation pass, so
  every one of these compensations has been called and nothing else has: no forward action
  beyond \<open>k\<close>, no compensation of \<open>k\<close> or of a later step.
\<close>

theorem exact_reverse_compensation:
  assumes "k < length (transactions (h ! this))"
    and "forward_pass (take k (transactions (h ! this))) init w0 = Some (sk, wk)"
    and "execute (transactions (h ! this) ! k) sk wk = (Rejects e, wr)"
  shows "Saga_execute h this init w0 =
           \<lparr>result = Resolves (Err e),
            final_args =
              fst (foldl apply_compensate (sk, wr) (rev (take k (transactions (h ! this))))),
            world =
              snd (foldl apply_compensate (sk, wr) (rev (take k (transactions (h ! this))))),
            calls =
              forward_events (enumerate 0 (take k (transactions (h ! this)))) init w0 @
              Event (Forward k) sk (Rejects e) #
              compensate_events (rev (enumerate 0 (take k (transactions (h ! this))))) sk wr,
            heap = h\<rparr> \<and>
         map call (calls (Saga_execute h this init w0)) =
           map Forward [0..<Suc k] @ map Compensate (rev [0..<k])"
proof -
  from run_failure [OF assms]
  have "map call (calls (Saga_execute h this init w0)) =
          map Forward [0..<Suc k] @ map Compensate (rev [0..<k])"
    by auto
  with run_failure_spec [OF assms] show ?thesis by (rule conjI)
qed

text \<open>
  In \<open>demo_unwind\<close> every action counts its call in the world: four forward calls and
  three compensations leave it at 6 (the failing step counts nothing).
\<close>

theorem exact_reverse_compensation_witness:
  "3 < length (transactions (demo_unwind ! 0)) \<and>
   forward_pass (take 3 (transactions (demo_unwind ! 0))) 3 0 = Some (15, 3) \<and>
   execute (transactions (demo_unwind ! 0) ! 3) 15 3 = (Rejects ''boom'', 3) \<and>
   Saga_execute demo_unwind 0 3 0 =
     \<lparr>result = Resolves (Err ''boom''), final_args = 13, world = 6,
      calls = [Event (Forward 0) 3 (Resolves 4), Event (Forward 1) 4 (Resolves 14),
               Event (Forward 2) 14 (Resolves 15), Event (Forward 3) 15 (Rejects ''boom''),
               Event (Compensate 2) 15 (Resolves 14),
               Event (Compensate 1) 14 (Rejects ''undo failed''),
               Event (Compensate 0) 14 (Resolves 13)],
      heap = demo_unwind\<rparr> \<and>
   map call (calls (Saga_execute demo_unwind 0 3 0)) =
     [Forward 0, Forward 1, Forward 2, Forward 3, Compensate 2, Compensate 1, Compensate 0]"
proof -
  have f: "foldl apply_compensate (15, 3) (rev (take 3 (transactions (demo_unwind ! 0)))) =
      (13, 6)"
    by (simp add: demo_unwind_def stepG_def stepF_def)
  have c: "compensate_events (rev (enumerate 0 (take 3 (transactions (demo_unwind ! 0))))) 15 3 =
      [Event (Compensate 2) 15 (Resolves 14), Event (Compensate 1) 14 (Rejects ''undo failed''),
       Event (Compensate 0) 14 (Resolves 13)]"
    by (simp add: demo_unwind_def stepG_def stepF_def)
  have r: "map Forward [0..<Suc 3] @ map Compensate (rev [0..<3]) =
      [Forward 0, Forward 1, Forward 2, Forward 3, Compensate 2, Compensate 1, Compensate 0]"
    by code_simp
  note T = exact_reverse_compensation [OF unwind_length unwind_pass unwind_fail]
  have c1: "Saga_execute demo_unwind 0 3 0 =
     \<lparr>result = Resolves (Err ''boom''), final_args = 13, world = 6,
      calls = [Event (Forward 0) 3 (Resolves 4), Event (Forward 1) 4 (Resolves 14),
               Event (Forward 2) 14 (Resolves 15), Event (Forward 3) 15 (Rejects ''boom''),
               Event (Compensate 2) 15 (Resolves 14),
               Event (Compensate 1) 14 (Rejects ''undo failed''),
               Event (Compensate 0) 14 (Resolves 13)],
      heap = demo_unwind\<rparr>"
    using T [THEN conjunct1]
    by (simp only: f c unwind_forward_events fst_conv snd_conv append.simps)
  have c2: "map call (calls (Saga_execute demo_unwind 0 3 0)) =
     [Forward 0, Forward 1, Forward 2, Forward 3, Compensate 2, Compensate 1, Compensate 0]"
    using T [THEN conjunct2] by (simp only: r)
  from unwind_length unwind_pass unwind_fail c1 c2 show ?thesis
    by (intro conjI)
qed

text \<open>
  Claim C3. If every forward action succeeds when the steps run in registration order from
  the initial state, \<open>execute\<close> returns \<open>ok\<close> with no payload, the final state (and world)
  is the left fold of the forward actions over the step list from the initial state, and
  the calls made are the forward actions of all the steps in registration order.
\<close>

theorem all_succeed:
  assumes "forward_pass (transactions (h ! this)) init w0 \<noteq> None"
  shows "result (Saga_execute h this init w0) = Resolves (Ok ()) \<and>
         (final_args (Saga_execute h this init w0), world (Saga_execute h this init w0)) =
           foldl apply_forward (init, w0) (transactions (h ! this)) \<and>
         map call (calls (Saga_execute h this init w0)) =
           map Forward [0..<length (transactions (h ! this))]"
proof -
  from assms obtain s' w' where f: "forward_pass (transactions (h ! this)) init w0 = Some (s', w')"
    by auto
  from run_success [OF f] forward_pass_foldl [OF f] show ?thesis by auto
qed

theorem all_succeed_witness:
  "forward_pass (transactions (demo_ok ! 0)) 3 0 \<noteq> None \<and>
   result (Saga_execute demo_ok 0 3 0) = Resolves (Ok ()) \<and>
   (final_args (Saga_execute demo_ok 0 3 0), world (Saga_execute demo_ok 0 3 0)) = (28, 1) \<and>
   map call (calls (Saga_execute demo_ok 0 3 0)) = [Forward 0, Forward 1, Forward 2]"
proof -
  have h: "forward_pass (transactions (demo_ok ! 0)) 3 0 \<noteq> None"
    by (simp add: demo_ok_def stepA_def stepB_def stepF_def)
  have f: "foldl apply_forward (3, 0) (transactions (demo_ok ! 0)) = (28, 1)"
    by (simp add: demo_ok_def stepA_def stepB_def stepF_def)
  have l: "map Forward [0..<length (transactions (demo_ok ! 0))] =
      [Forward 0, Forward 1, Forward 2]"
    unfolding demo_ok_def by code_simp
  from all_succeed [OF h] have
    "result (Saga_execute demo_ok 0 3 0) = Resolves (Ok ()) \<and>
     (final_args (Saga_execute demo_ok 0 3 0), world (Saga_execute demo_ok 0 3 0)) = (28, 1) \<and>
     map call (calls (Saga_execute demo_ok 0 3 0)) = [Forward 0, Forward 1, Forward 2]"
    by (simp only: f l)
  with h show ?thesis by blast
qed

text \<open>
  Claim C4. Let the forward action at index \<open>k\<close> be the first to fail, and let the
  compensation pass, on its way down from \<open>k - 1\<close>, reach the step \<open>j\<close> with state \<open>a\<close>
  and world \<open>w\<close>, where the compensation of \<open>j\<close> fails with \<open>e'\<close> and leaves the world
  \<open>w'\<close>. Then the run still returns the error of the forward action; after the failed call
  the compensations of \<open>j - 1, \<dots>, 0\<close> are all called, in that order, the first of them on
  the same state \<open>a\<close>; and the final state and world are those of compensating the steps
  \<open>j - 1, \<dots>, 0\<close> from \<open>a\<close> and \<open>w'\<close>.
\<close>

theorem compensation_failure_swallowed:
  assumes "k < length (transactions (h ! this))"
    and "forward_pass (take k (transactions (h ! this))) init w0 = Some (sk, wk)"
    and "execute (transactions (h ! this) ! k) sk wk = (Rejects e, wr)"
    and "j < k"
    and "foldl apply_compensate (sk, wr)
           (rev (drop (Suc j) (take k (transactions (h ! this))))) = (a, w)"
    and "compensate (transactions (h ! this) ! j) a w = (Rejects e', w')"
  shows "result (Saga_execute h this init w0) = Resolves (Err e) \<and>
         (final_args (Saga_execute h this init w0), world (Saga_execute h this init w0)) =
           foldl apply_compensate (a, w') (rev (take j (transactions (h ! this)))) \<and>
         calls (Saga_execute h this init w0) =
           forward_events (enumerate 0 (take k (transactions (h ! this)))) init w0 @
           Event (Forward k) sk (Rejects e) #
           compensate_events
             (rev (enumerate (Suc j) (drop (Suc j) (take k (transactions (h ! this)))))) sk wr @
           Event (Compensate j) a (Rejects e') #
           compensate_events (rev (enumerate 0 (take j (transactions (h ! this))))) a w' \<and>
         map call (compensate_events (rev (enumerate 0 (take j (transactions (h ! this))))) a w') =
           map Compensate (rev [0..<j]) \<and>
         (0 < j \<longrightarrow>
            arg (hd (compensate_events (rev (enumerate 0 (take j (transactions (h ! this))))) a w'))
              = a)"
proof -
  let ?ts = "transactions (h ! this)"
  let ?D = "drop (Suc j) (take k ?ts)"
  let ?lo = "rev (enumerate 0 (take j ?ts))"
  from assms(1,4) have jl: "j < length ?ts" and lj: "length (take j ?ts) = j" by simp_all
  have sp: "take k ?ts = take j ?ts @ ?ts ! j # ?D"
    using take_split [of j k ?ts] assms(1,4) by simp
  have rsp: "rev (take k ?ts) = rev ?D @ ?ts ! j # rev (take j ?ts)"
    by (subst sp) simp
  have "enumerate 0 (take k ?ts) = enumerate 0 (take j ?ts) @ (j, ?ts ! j) # enumerate (Suc j) ?D"
    using jl by (subst sp) (simp add: enumerate_append_eq min_def)
  then have ren: "rev (enumerate 0 (take k ?ts)) =
      rev (enumerate (Suc j) ?D) @ (j, ?ts ! j) # ?lo"
    by simp
  have step: "apply_compensate (a, w) (?ts ! j) = (a, w')"
    using assms(6) by simp
  have fold: "foldl apply_compensate (sk, wr) (rev (take k ?ts)) =
      foldl apply_compensate (a, w') (rev (take j ?ts))"
    by (simp only: rsp foldl_append foldl_Cons assms(5) step)
  have ms: "map snd (rev (enumerate (Suc j) ?D)) = rev ?D"
    by (simp add: rev_map [symmetric])
  have ev: "compensate_events (rev (enumerate 0 (take k ?ts))) sk wr =
      compensate_events (rev (enumerate (Suc j) ?D)) sk wr @
      Event (Compensate j) a (Rejects e') # compensate_events ?lo a w'"
    using assms(6)
    by (simp only: ren compensate_events_append ms assms(5) fst_conv snd_conv) simp
  have run: "Saga_execute h this init w0 =
     \<lparr>result = Resolves (Err e),
      final_args = fst (foldl apply_compensate (a, w') (rev (take j ?ts))),
      world = snd (foldl apply_compensate (a, w') (rev (take j ?ts))),
      calls = forward_events (enumerate 0 (take k ?ts)) init w0 @
              Event (Forward k) sk (Rejects e) #
              compensate_events (rev (enumerate (Suc j) ?D)) sk wr @
              Event (Compensate j) a (Rejects e') # compensate_events ?lo a w',
      heap = h\<rparr>"
    using run_failure_spec [OF assms(1-3)] by (simp only: fold ev)
  have lab: "map call (compensate_events ?lo a w') = map Compensate (rev [0..<j])"
    using jl by (simp add: compensate_events_calls rev_map [symmetric] min_def
        map_map [symmetric, of Compensate fst, unfolded comp_def] del: map_map)
  have hd: "0 < j \<Longrightarrow> arg (hd (compensate_events ?lo a w')) = a"
  proof -
    assume "0 < j"
    with lj have "?lo \<noteq> []" by (cases "take j ?ts") auto
    then show ?thesis by (rule compensate_events_hd)
  qed
  from run lab hd show ?thesis by simp
qed

text \<open>
  In \<open>demo_unwind\<close> the compensation of step 1 fails on 14; the compensation of step 0
  then runs on 14, gives 13 and counts its call in the world.
\<close>

theorem compensation_failure_swallowed_witness:
  "3 < length (transactions (demo_unwind ! 0)) \<and>
   forward_pass (take 3 (transactions (demo_unwind ! 0))) 3 0 = Some (15, 3) \<and>
   execute (transactions (demo_unwind ! 0) ! 3) 15 3 = (Rejects ''boom'', 3) \<and>
   (1::nat) < 3 \<and>
   foldl apply_compensate (15, 3)
     (rev (drop (Suc 1) (take 3 (transactions (demo_unwind ! 0))))) = (14, 4) \<and>
   compensate (transactions (demo_unwind ! 0) ! 1) 14 4 = (Rejects ''undo failed'', 5) \<and>
   result (Saga_execute demo_unwind 0 3 0) = Resolves (Err ''boom'') \<and>
   (final_args (Saga_execute demo_unwind 0 3 0), world (Saga_execute demo_unwind 0 3 0)) =
     (13, 6) \<and>
   calls (Saga_execute demo_unwind 0 3 0) =
     [Event (Forward 0) 3 (Resolves 4), Event (Forward 1) 4 (Resolves 14),
      Event (Forward 2) 14 (Resolves 15), Event (Forward 3) 15 (Rejects ''boom''),
      Event (Compensate 2) 15 (Resolves 14), Event (Compensate 1) 14 (Rejects ''undo failed''),
      Event (Compensate 0) 14 (Resolves 13)] \<and>
   (0::nat) < 1 \<and>
   arg (hd [Event (Compensate 0) (14::rat) (Resolves 13 :: (rat, string) Promise)]) = 14"
proof -
  have 4: "(1::nat) < 3" by simp
  have 5: "foldl apply_compensate (15, 3)
      (rev (drop (Suc 1) (take 3 (transactions (demo_unwind ! 0))))) = (14, 4)"
    by (simp add: demo_unwind_def stepG_def)
  have 6: "compensate (transactions (demo_unwind ! 0) ! 1) 14 4 = (Rejects ''undo failed'', 5)"
    by (simp add: demo_unwind_def stepF_def)
  have f: "foldl apply_compensate (14, 5) (rev (take 1 (transactions (demo_unwind ! 0)))) =
      (13, 6)"
    by (simp add: demo_unwind_def stepG_def)
  have hi: "compensate_events
      (rev (enumerate (Suc 1) (drop (Suc 1) (take 3 (transactions (demo_unwind ! 0)))))) 15 3 =
      [Event (Compensate 2) 15 (Resolves 14)]"
    by (simp add: demo_unwind_def stepG_def)
  have lo: "compensate_events (rev (enumerate 0 (take 1 (transactions (demo_unwind ! 0))))) 14 5 =
      [Event (Compensate 0) 14 (Resolves 13)]"
    by (simp add: demo_unwind_def stepG_def)
  note T = compensation_failure_swallowed [OF unwind_length unwind_pass unwind_fail 4 5 6]
  have c1: "result (Saga_execute demo_unwind 0 3 0) = Resolves (Err ''boom'')"
    by (rule T [THEN conjunct1])
  have c2: "(final_args (Saga_execute demo_unwind 0 3 0), world (Saga_execute demo_unwind 0 3 0)) =
      (13, 6)"
    using T [THEN conjunct2, THEN conjunct1] by (simp only: f)
  have c3: "calls (Saga_execute demo_unwind 0 3 0) =
     [Event (Forward 0) 3 (Resolves 4), Event (Forward 1) 4 (Resolves 14),
      Event (Forward 2) 14 (Resolves 15), Event (Forward 3) 15 (Rejects ''boom''),
      Event (Compensate 2) 15 (Resolves 14), Event (Compensate 1) 14 (Rejects ''undo failed''),
      Event (Compensate 0) 14 (Resolves 13)]"
    using T [THEN conjunct2, THEN conjunct2, THEN conjunct1]
    by (simp only: unwind_forward_events hi lo append.simps)
  have p: "(0::nat) < 1" by simp
  have c5: "arg (hd [Event (Compensate 0) (14::rat) (Resolves 13 :: (rat, string) Promise)]) = 14"
    using T [THEN conjunct2, THEN conjunct2, THEN conjunct2, THEN conjunct2, rule_format, OF p]
    by (simp only: lo)
  from unwind_length unwind_pass unwind_fail 4 5 6 c1 c2 c3 p c5 show ?thesis
    by (intro conjI)
qed

text \<open>
  Claim C5. If the forward action of the step at index 0 fails with \<open>e\<close>, the run
  consists of that one call: no compensation is called, the state is the initial one, and
  \<open>execute\<close> returns \<open>err(e)\<close>.
\<close>

theorem first_step_failure:
  assumes "0 < length (transactions (h ! this))"
    and "execute (transactions (h ! this) ! 0) init w0 = (Rejects e, wr)"
  shows "Saga_execute h this init w0 =
         \<lparr>result = Resolves (Err e), final_args = init, world = wr,
          calls = [Event (Forward 0) init (Rejects e)], heap = h\<rparr>"
  using assms
  by (simp add: Saga_execute_def execute_loop_fail startCompensate_def compensate_loop_neg)

theorem first_step_failure_witness:
  "0 < length (transactions (demo_first ! 0)) \<and>
   execute (transactions (demo_first ! 0) ! 0) 3 7 = (Rejects ''boom'', 7) \<and>
   Saga_execute demo_first 0 3 7 =
     \<lparr>result = Resolves (Err ''boom''), final_args = 3, world = 7,
      calls = [Event (Forward 0) 3 (Rejects ''boom'')], heap = demo_first\<rparr>"
proof -
  have 1: "0 < length (transactions (demo_first ! 0))"
    by (simp add: demo_first_def)
  have 2: "execute (transactions (demo_first ! 0) ! 0) 3 7 = (Rejects ''boom'', 7)"
    by (simp add: demo_first_def stepC_def)
  show ?thesis by (rule conjI [OF 1 conjI [OF 2 first_step_failure [OF 1 2]]])
qed

text \<open>
  Claim C6. A saga with no step, executed from any initial state, returns \<open>ok\<close> and makes
  no call at all; state, world and store are as they were.
\<close>

theorem empty_saga:
  assumes "transactions (h ! this) = []"
  shows "Saga_execute h this init w0 =
         \<lparr>result = Resolves (Ok ()), final_args = init, world = w0, calls = [], heap = h\<rparr>"
  using assms by (simp add: Saga_execute_def execute_loop_done)

text \<open>The saga that \<^verbatim>\<open>Saga.new()\<close> returns is such a saga.\<close>

theorem empty_saga_witness:
  "transactions (snd (Saga_new ([] :: (rat, string, nat) store)) ! fst (Saga_new ([] :: (rat, string, nat) store))) = [] \<and>
   Saga_execute (snd (Saga_new ([] :: (rat, string, nat) store)))
       (fst (Saga_new ([] :: (rat, string, nat) store))) 3 0 =
     \<lparr>result = Resolves (Ok ()), final_args = 3, world = 0, calls = [],
      heap = snd (Saga_new ([] :: (rat, string, nat) store))\<rparr>"
proof -
  let ?new = "Saga_new ([] :: (rat, string, nat) store)"
  have 1: "transactions (snd ?new ! fst ?new) = []"
    by (simp add: Saga_new_def)
  from 1 empty_saga [OF 1] show ?thesis by blast
qed

text \<open>
  Claim C7. The scenario \<open>[A, B, C]\<close> run from 3: \<open>A\<close> on 3 gives 4, \<open>B\<close> on 4 gives 8,
  \<open>C\<close> on 8 fails with \<open>E\<close>; then the compensation of \<open>B\<close> on 8 gives 4 and the
  compensation of \<open>A\<close> on 4 gives 3; the result is \<open>err(E)\<close>. The compensation of \<open>C\<close>,
  whatever it is, is not called.
\<close>

theorem concrete_scenario:
  "Saga_execute (snd (scenario E cmp)) (fst (scenario E cmp)) 3 w =
     \<lparr>result = Resolves (Err E), final_args = 3, world = w,
      calls = [Event (Forward 0) 3 (Resolves 4), Event (Forward 1) 4 (Resolves 8),
               Event (Forward 2) 8 (Rejects E),
               Event (Compensate 1) 8 (Resolves 4), Event (Compensate 0) 4 (Resolves 3)],
      heap = snd (scenario E cmp)\<rparr>"
  by (simp add: scenario_def Saga_new_def addTransaction_def demo_simps)

text \<open>
  Claim C8. On a saga of the store, \<open>addTransaction\<close> returns the reference it was called
  on; the saga's step list is the old one followed by the new step, so the old steps and
  their order are kept; no other object of the store changes. A chain of calls appends
  the steps in call order.
\<close>

theorem addTransaction_appends:
  assumes "this < length h"
  shows "fst (addTransaction this t h) = this \<and>
         transactions (snd (addTransaction this t h) ! this) = transactions (h ! this) @ [t] \<and>
         length (snd (addTransaction this t h)) = length h \<and>
         (\<forall>r. r \<noteq> this \<longrightarrow> snd (addTransaction this t h) ! r = h ! r) \<and>
         fst (chain this new h) = this \<and>
         transactions (snd (chain this new h) ! this) = transactions (h ! this) @ new"
  using assms by (simp add: addTransaction_def chain_eq)

theorem addTransaction_appends_witness:
  "(0::nat) < length (demo_ok @ demo) \<and>
   fst (addTransaction 0 stepB (demo_ok @ demo)) = 0 \<and>
   transactions (snd (addTransaction 0 stepB (demo_ok @ demo)) ! 0) =
     [stepA, stepF ''undo failed'', stepB, stepB] \<and>
   length (snd (addTransaction 0 stepB (demo_ok @ demo))) = 2 \<and>
   (1::nat) \<noteq> 0 \<and> snd (addTransaction 0 stepB (demo_ok @ demo)) ! 1 = demo ! 0 \<and>
   fst (chain 0 [stepB, stepA] (demo_ok @ demo)) = 0 \<and>
   transactions (snd (chain 0 [stepB, stepA] (demo_ok @ demo)) ! 0) =
     [stepA, stepF ''undo failed'', stepB, stepB, stepA]"
proof -
  have 1: "(0::nat) < length (demo_ok @ demo)"
    by (simp add: demo_def)
  have t: "transactions ((demo_ok @ demo) ! 0) = [stepA, stepF ''undo failed'', stepB]"
    by (simp add: demo_ok_def)
  have l: "length (demo_ok @ demo) = 2" "(demo_ok @ demo) ! 1 = demo ! 0"
    by (simp_all add: demo_ok_def demo_def)
  note A = addTransaction_appends [OF 1, of stepB "[stepB, stepA]"]
  have c1: "fst (addTransaction 0 stepB (demo_ok @ demo)) = 0"
    by (rule A [THEN conjunct1])
  have c2: "transactions (snd (addTransaction 0 stepB (demo_ok @ demo)) ! 0) =
      [stepA, stepF ''undo failed'', stepB, stepB]"
    using A [THEN conjunct2, THEN conjunct1] by (simp only: t append.simps)
  have c3: "length (snd (addTransaction 0 stepB (demo_ok @ demo))) = 2"
    using A [THEN conjunct2, THEN conjunct2, THEN conjunct1] by (simp only: l)
  have n: "(1::nat) \<noteq> 0"
    by simp
  have c4: "snd (addTransaction 0 stepB (demo_ok @ demo)) ! 1 = demo ! 0"
    using A [THEN conjunct2, THEN conjunct2, THEN conjunct2, THEN conjunct1, rule_format, OF n]
    by (simp only: l)
  have c5: "fst (chain 0 [stepB, stepA] (demo_ok @ demo)) = 0"
    by (rule A [THEN conjunct2, THEN conjunct2, THEN conjunct2, THEN conjunct2, THEN conjunct1])
  have c6: "transactions (snd (chain 0 [stepB, stepA] (demo_ok @ demo)) ! 0) =
      [stepA, stepF ''undo failed'', stepB, stepB, stepA]"
    using A [THEN conjunct2, THEN conjunct2, THEN conjunct2, THEN conjunct2, THEN conjunct2]
    by (simp only: t append.simps)
  from 1 c1 c2 c3 n c4 c5 c6 show ?thesis by (intro conjI)
qed

text \<open>
  Claim C9. \<open>execute\<close> leaves the store as it found it, whether it returns \<open>ok\<close> or \<open>err\<close>:
  the saga's step list after the run is the one before it, and a second run, from any
  state and world, is the run that the saga would have made had the first never happened.
\<close>

theorem step_list_unchanged:
  "heap (Saga_execute h this init w0) = h \<and>
   transactions (heap (Saga_execute h this init w0) ! this) = transactions (h ! this) \<and>
   Saga_execute (heap (Saga_execute h this init w0)) this init' w0' =
     Saga_execute h this init' w0'"
proof -
  have "heap (Saga_execute h this init w0) = h"
  proof (cases "forward_pass (transactions (h ! this)) init w0")
    case (Some r)
    obtain s' w' where "r = (s', w')" by (cases r)
    with Some run_success [of h this init w0 s' w'] show ?thesis by auto
  next
    case None
    from forward_pass_None [OF None] obtain k sk wk e wr where
      "k < length (transactions (h ! this))"
      "forward_pass (take k (transactions (h ! this))) init w0 = Some (sk, wk)"
      "execute (transactions (h ! this) ! k) sk wk = (Rejects e, wr)"
      by blast
    from run_failure [OF this] show ?thesis by auto
  qed
  then show ?thesis by simp
qed

text \<open>
  Claim C10. For every step list, state and world, the promise that \<open>execute\<close> returns
  resolves, and it resolves to \<open>ok\<close> or to \<open>err(e)\<close> where \<open>e\<close> is the error of a forward
  call of the run: no failure of a step, forward or compensating, leaves \<open>execute\<close> as a
  rejection. (The functions of the model are total: each loop terminates.)
\<close>

theorem execute_always_resolves:
  "result (Saga_execute h this init w0) = Resolves (Ok ()) \<or>
   (\<exists>e k a. result (Saga_execute h this init w0) = Resolves (Err e) \<and>
      Event (Forward k) a (Rejects e) \<in> set (calls (Saga_execute h this init w0)))"
proof (cases "forward_pass (transactions (h ! this)) init w0")
  case (Some r)
  obtain s' w' where "r = (s', w')" by (cases r)
  with Some run_success [of h this init w0 s' w'] show ?thesis by auto
next
  case None
  from forward_pass_None [OF None] obtain k sk wk e wr where
    "k < length (transactions (h ! this))"
    "forward_pass (take k (transactions (h ! this))) init w0 = Some (sk, wk)"
    "execute (transactions (h ! this) ! k) sk wk = (Rejects e, wr)"
    by blast
  from run_failure [OF this] obtain F C a' w' where
    "Saga_execute h this init w0 =
       \<lparr>result = Resolves (Err e), final_args = a', world = w',
        calls = F @ Event (Forward k) sk (Rejects e) # C, heap = h\<rparr>" by blast
  then have "result (Saga_execute h this init w0) = Resolves (Err e) \<and>
      Event (Forward k) sk (Rejects e) \<in> set (calls (Saga_execute h this init w0))" by simp
  then show ?thesis by blast
qed

end
